theory Spec2Isabelle
  imports Main
begin

section \<open>The wallet marker writer \<open>import_wallet.py\<close>\<close>

text \<open>
  The script computes a directory under the user's home directory, makes sure it
  exists, writes a fixed phrase into \<open>mnemonic.txt\<close> there and prints status lines.
  Its own code is \<open>main\<close>; everything else is the Python standard library on a POSIX
  host (\<open>posixpath.expanduser\<close>, \<open>posixpath.split\<close>, \<open>posixpath.join\<close>, \<open>os.makedirs\<close>,
  \<open>open\<close>, \<open>print\<close>) and the kernel's path resolution, which are embedded here as far as
  \<open>main\<close> reaches them.

  Scope of the file-system model: a tree of directories and regular files that all
  belong to the user of the process, each with its owner-write bit; a process with
  effective user 0 may write everywhere; new entries get the write bit that the umask
  leaves. No symbolic links, no search permission, unlimited storage, no other process.
  Strings are byte strings.
\<close>

subsection \<open>Strings\<close>

definition sep :: char where
  "sep = CHR ''/''"

definition newline :: char where
  "newline = CHR 0x0A"

text \<open>\<open>s.rstrip(c)\<close>\<close>

definition rstrip :: "char \<Rightarrow> string \<Rightarrow> string" where
  "rstrip c s = rev (dropWhile (\<lambda>x. x = c) (rev s))"

text \<open>\<open>s.find(c, 1)\<close>: the first index at or after 1 that holds \<open>c\<close>; \<open>None\<close> is Python's -1.\<close>

definition find_from1 :: "char \<Rightarrow> string \<Rightarrow> nat option" where
  "find_from1 c s =
     (let rest = drop 1 s; n = length (takeWhile (\<lambda>x. x \<noteq> c) rest)
      in if n = length rest then None else Some (Suc n))"

text \<open>\<open>s.rfind(c) + 1\<close>: one past the last index that holds \<open>c\<close>, 0 when there is none.\<close>

definition rfind_succ :: "char \<Rightarrow> string \<Rightarrow> nat" where
  "rfind_succ c s = length s - length (takeWhile (\<lambda>x. x \<noteq> c) (rev s))"

text \<open>\<open>s.split(c)\<close>\<close>

fun split_on :: "char \<Rightarrow> string \<Rightarrow> string list" where
  "split_on c [] = [[]]"
| "split_on c (x # xs) =
     (if x = c then [] # split_on c xs
      else (case split_on c xs of [] \<Rightarrow> [[x]] | w # ws \<Rightarrow> (x # w) # ws))"

subsection \<open>The process environment\<close>

text \<open>
  \<open>environ_HOME\<close> is \<open>os.environ.get('HOME')\<close>; \<open>getpwuid_dir\<close> is
  \<open>pwd.getpwuid(os.getuid()).pw_dir\<close>, \<open>None\<close> when the lookup raises \<open>KeyError\<close>;
  \<open>getpwnam_dir\<close> is \<open>pwd.getpwnam(name).pw_dir\<close> likewise; \<open>cwd\<close> is the working
  directory, as the list of names from the root; \<open>euid\<close> is the effective user id and
  \<open>umask\<close> the file mode creation mask of the process.
\<close>

record env =
  environ_HOME :: "string option"
  getpwuid_dir :: "string option"
  getpwnam_dir :: "string \<Rightarrow> string option"
  cwd :: "string list"
  euid :: nat
  umask :: nat

text \<open>
  The superuser passes every write permission check. \<open>mkdir\<close> asks for mode \<open>0o777\<close> and
  \<open>open\<close> for \<open>0o666\<close>; the entry gets the owner-write bit \<open>0o200\<close> unless the umask
  holds it.
\<close>

definition privileged :: "env \<Rightarrow> bool" where
  "privileged e = (euid e = 0)"

definition new_write_bit :: "env \<Rightarrow> bool" where
  "new_write_bit e = even (umask e div 128)"

definition may_write :: "env \<Rightarrow> bool \<Rightarrow> bool" where
  "may_write e w = (privileged e \<or> w)"

subsection \<open>\<open>posixpath\<close>\<close>

text \<open>
  \<^verbatim>\<open>
  def expanduser(path):
      if not path.startswith('~'):
          return path
      i = path.find('/', 1)
      if i < 0:
          i = len(path)
      if i == 1:
          if 'HOME' not in os.environ:
              try:
                  userhome = pwd.getpwuid(os.getuid()).pw_dir
              except KeyError:
                  return path
          else:
              userhome = os.environ['HOME']
      else:
          try:
              pwent = pwd.getpwnam(path[1:i])
          except KeyError:
              return path
          userhome = pwent.pw_dir
      userhome = userhome.rstrip('/')
      return (userhome + path[i:]) or '/'
  \<close>
  The function has no failing branch: where no home is found it returns its argument.
\<close>

definition expanduser :: "env \<Rightarrow> string \<Rightarrow> string" where
  "expanduser e path =
     (if \<not> (path \<noteq> [] \<and> hd path = CHR ''~'') then path
      else
        let i = (case find_from1 sep path of None \<Rightarrow> length path | Some j \<Rightarrow> j);
            found = (if i = 1
                     then (case environ_HOME e of
                             None \<Rightarrow> getpwuid_dir e
                           | Some h \<Rightarrow> Some h)
                     else getpwnam_dir e (take (i - 1) (drop 1 path)))
        in case found of
             None \<Rightarrow> path
           | Some userhome \<Rightarrow>
               (let r = rstrip sep userhome @ drop i path
                in if r = [] then [sep] else r))"

text \<open>
  \<^verbatim>\<open>
  def split(p):
      i = p.rfind('/') + 1
      head, tail = p[:i], p[i:]
      if head and head != '/'*len(head):
          head = head.rstrip('/')
      return head, tail
  \<close>
\<close>

definition path_split :: "string \<Rightarrow> string \<times> string" where
  "path_split p =
     (let i = rfind_succ sep p; head = take i p; tail = drop i p
      in (if head \<noteq> [] \<and> head \<noteq> replicate (length head) sep
          then rstrip sep head else head, tail))"

text \<open>
  \<^verbatim>\<open>
  def join(a, b):            # posixpath.join with one further component
      path = a
      if b.startswith('/'):
          path = b
      elif not path or path.endswith('/'):
          path += b
      else:
          path += '/' + b
      return path
  \<close>
\<close>

definition path_join :: "string \<Rightarrow> string \<Rightarrow> string" where
  "path_join a b =
     (if b \<noteq> [] \<and> hd b = sep then b
      else if a = [] \<or> last a = sep then a @ b
      else a @ [sep] @ b)"

subsection \<open>The file system\<close>

text \<open>
  A location is the list of names from the root; the root is \<open>[]\<close>. A node is a
  directory or a regular file with its content; the flag is the owner's write bit.
\<close>

type_synonym loc = "string list"

datatype node = Dir bool | File bool string

type_synonym fs = "loc \<Rightarrow> node option"

text \<open>The \<open>errno\<close> values that reach the script, each an \<open>OSError\<close> subclass in Python.\<close>

datatype oserror = ENOENT | ENOTDIR | EEXIST | EACCES | EISDIR

text \<open>
  Path resolution: every name is looked up in a directory, so the location reached so
  far has to be a directory before the next name is taken; \<open>.\<close> stays, \<open>..\<close> goes up
  (the root is its own parent), empty names (repeated slashes) are skipped.
\<close>

definition path_components :: "string \<Rightarrow> string list" where
  "path_components s = filter (\<lambda>c. c \<noteq> []) (split_on sep s)"

definition step :: "loc \<Rightarrow> string \<Rightarrow> loc" where
  "step cur c = (if c = ''.'' then cur else if c = ''..'' then butlast cur else cur @ [c])"

fun walk :: "fs \<Rightarrow> loc \<Rightarrow> string list \<Rightarrow> oserror + loc" where
  "walk f cur [] = Inr cur"
| "walk f cur (c # cs) =
     (case f cur of
        None \<Rightarrow> Inl ENOENT
      | Some (File w d) \<Rightarrow> Inl ENOTDIR
      | Some (Dir w) \<Rightarrow> walk f (step cur c) cs)"

definition namei :: "loc \<Rightarrow> fs \<Rightarrow> string \<Rightarrow> oserror + loc" where
  "namei wd f s =
     (if s = [] then Inl ENOENT
      else walk f (if hd s = sep then [] else wd) (path_components s))"

text \<open>A path that ends in a slash names a directory: a regular file does not answer to it.\<close>

definition trailing_slash :: "string \<Rightarrow> bool" where
  "trailing_slash s = (s \<noteq> [] \<and> last s = sep)"

text \<open>\<open>os.stat\<close>, and \<open>os.path.exists\<close> and \<open>os.path.isdir\<close> on top of it.\<close>

definition stat :: "loc \<Rightarrow> fs \<Rightarrow> string \<Rightarrow> oserror + node" where
  "stat wd f s =
     (case namei wd f s of
        Inl e \<Rightarrow> Inl e
      | Inr p \<Rightarrow>
          (case f p of
             None \<Rightarrow> Inl ENOENT
           | Some (Dir w) \<Rightarrow> Inr (Dir w)
           | Some (File w d) \<Rightarrow> if trailing_slash s then Inl ENOTDIR else Inr (File w d)))"

definition path_exists :: "loc \<Rightarrow> fs \<Rightarrow> string \<Rightarrow> bool" where
  "path_exists wd f s = (case stat wd f s of Inl e \<Rightarrow> False | Inr n \<Rightarrow> True)"

definition path_isdir :: "loc \<Rightarrow> fs \<Rightarrow> string \<Rightarrow> bool" where
  "path_isdir wd f s = (case stat wd f s of Inr (Dir w) \<Rightarrow> True | _ \<Rightarrow> False)"

text \<open>
  Creating an entry at a location that holds nothing: its parent has to be a directory
  in which the process may write.
\<close>

definition create :: "env \<Rightarrow> fs \<Rightarrow> loc \<Rightarrow> node \<Rightarrow> oserror + fs" where
  "create e f p n =
     (case f (butlast p) of
        None \<Rightarrow> Inl ENOENT
      | Some (File w d) \<Rightarrow> Inl ENOTDIR
      | Some (Dir w) \<Rightarrow> if may_write e w then Inr (f(p \<mapsto> n)) else Inl EACCES)"

text \<open>\<open>os.mkdir(name)\<close>, with the default mode \<open>0o777\<close>.\<close>

definition mkdir :: "env \<Rightarrow> fs \<Rightarrow> string \<Rightarrow> oserror + fs" where
  "mkdir e f s =
     (case namei (cwd e) f s of
        Inl err \<Rightarrow> Inl err
      | Inr p \<Rightarrow>
          (case f p of
             Some n \<Rightarrow> Inl EEXIST
           | None \<Rightarrow> create e f p (Dir (new_write_bit e))))"

text \<open>
  \<open>open(name, "w")\<close>, that is \<open>O_WRONLY | O_CREAT | O_TRUNC\<close> with mode \<open>0o666\<close>: the
  file is created, or truncated with its mode kept; the handle is the location. A path
  that ends in a slash is refused as a directory.
\<close>

definition open_w :: "env \<Rightarrow> fs \<Rightarrow> string \<Rightarrow> oserror + fs \<times> loc" where
  "open_w e f s =
     (case namei (cwd e) f s of
        Inl err \<Rightarrow> Inl err
      | Inr p \<Rightarrow>
          if trailing_slash s then Inl EISDIR
          else
            (case f p of
               Some (Dir w) \<Rightarrow> Inl EISDIR
             | Some (File w d) \<Rightarrow>
                 if may_write e w then Inr (f(p \<mapsto> File w []), p) else Inl EACCES
             | None \<Rightarrow>
                 (case create e f p (File (new_write_bit e) []) of
                    Inl err \<Rightarrow> Inl err
                  | Inr f' \<Rightarrow> Inr (f', p))))"

text \<open>\<open>f.write(data)\<close> and the close at the end of the \<open>with\<close> block: the data is appended.\<close>

definition write_close :: "fs \<Rightarrow> loc \<Rightarrow> string \<Rightarrow> fs" where
  "write_close f p data =
     (case f p of
        Some (File w d) \<Rightarrow> f(p \<mapsto> File w (d @ data))
      | _ \<Rightarrow> f)"

text \<open>
  \<^verbatim>\<open>
  def makedirs(name, mode=0o777, exist_ok=False):
      head, tail = path.split(name)
      if not tail:
          head, tail = path.split(head)
      if head and tail and not path.exists(head):
          try:
              makedirs(head, exist_ok=exist_ok)
          except FileExistsError:
              pass
          if tail == '.':
              return
      try:
          mkdir(name, mode)
      except OSError:
          if not exist_ok or not path.isdir(name):
              raise
  \<close>
  The result is the exception raised, if any, with the file system as it is then.
\<close>

definition makedirs_split :: "string \<Rightarrow> string \<times> string" where
  "makedirs_split name =
     (let ht = path_split name in if snd ht = [] then path_split (fst ht) else ht)"

definition mkdir_exist_ok :: "env \<Rightarrow> fs \<Rightarrow> string \<Rightarrow> bool \<Rightarrow> oserror option \<times> fs" where
  "mkdir_exist_ok e f name exist_ok =
     (case mkdir e f name of
        Inr f' \<Rightarrow> (None, f')
      | Inl err \<Rightarrow>
          if \<not> exist_ok \<or> \<not> path_isdir (cwd e) f name then (Some err, f) else (None, f))"

function makedirs :: "env \<Rightarrow> fs \<Rightarrow> string \<Rightarrow> bool \<Rightarrow> oserror option \<times> fs" where
  "makedirs e f name exist_ok =
     (let head = fst (makedirs_split name); tail = snd (makedirs_split name)
      in if head \<noteq> [] \<and> tail \<noteq> [] \<and> \<not> path_exists (cwd e) f head
         then (case makedirs e f head exist_ok of
                 (Some err, f1) \<Rightarrow>
                   if err \<noteq> EEXIST then (Some err, f1)
                   else if tail = ''.'' then (None, f1)
                   else mkdir_exist_ok e f1 name exist_ok
               | (None, f1) \<Rightarrow>
                   if tail = ''.'' then (None, f1)
                   else mkdir_exist_ok e f1 name exist_ok)
         else mkdir_exist_ok e f name exist_ok)"
  by pat_completeness auto

lemma length_rstrip_le: "length (rstrip c s) \<le> length s"
  unfolding rstrip_def using length_dropWhile_le [of "\<lambda>x. x = c" "rev s"] by simp

lemma path_split_length:
  "length (fst (path_split p)) + length (snd (path_split p)) \<le> length p"
proof -
  let ?i = "rfind_succ sep p"
  have "length (rstrip sep (take ?i p)) \<le> length (take ?i p)"
    by (rule length_rstrip_le)
  then show ?thesis
    by (auto simp: path_split_def Let_def)
qed

lemma makedirs_split_shorter:
  assumes "snd (makedirs_split name) \<noteq> []"
  shows "length (fst (makedirs_split name)) < length name"
proof (cases "snd (path_split name) = []")
  case True
  let ?h = "fst (path_split name)"
  from True assms have "snd (path_split ?h) \<noteq> []"
    by (simp add: makedirs_split_def Let_def)
  with path_split_length [of ?h] have "length (fst (path_split ?h)) < length ?h"
    by (cases "snd (path_split ?h)") auto
  moreover have "length ?h \<le> length name"
    using path_split_length [of name] by simp
  ultimately show ?thesis
    using True by (simp add: makedirs_split_def Let_def)
next
  case False
  with path_split_length [of name] show ?thesis
    by (cases "snd (path_split name)") (auto simp: makedirs_split_def Let_def)
qed

termination makedirs
  by (relation "measure (\<lambda>(e, f, name, exist_ok). length name)")
     (auto intro: makedirs_split_shorter)

declare makedirs.simps [simp del]

subsection \<open>The script\<close>

definition MNEMONIC :: string where
  "MNEMONIC = ''provide verb sheriff tragic arrow bless still empty gesture senior pause tobacco creek giggle pair crisp glow divide boost endless elite fiction cup arena''"

text \<open>\<open>print(s)\<close> appends the text and a newline to standard output.\<close>

definition print :: "string \<Rightarrow> string \<Rightarrow> string" where
  "print out s = out @ s @ [newline]"

text \<open>
  \<^verbatim>\<open>
  def main():
      print("Importing wallet with provided mnemonic...")
      wallet_dir = os.path.expanduser("~/.dig/wallets/test-wallet")
      os.makedirs(wallet_dir, exist_ok=True)
      with open(os.path.join(wallet_dir, "mnemonic.txt"), "w") as f:
          f.write(MNEMONIC)
      print(f"Created wallet marker at: {wallet_dir}")
      print("Mnemonic saved for testing purposes")
  \<close>
  A run ends with the exception that escaped, if any, the file system and what was
  written to standard output.
\<close>

record outcome =
  raised :: "oserror option"
  files :: fs
  stdout :: string

definition main :: "env \<Rightarrow> fs \<Rightarrow> outcome" where
  "main e f =
     (let out1 = print [] ''Importing wallet with provided mnemonic...'';
          wallet_dir = expanduser e ''~/.dig/wallets/test-wallet''
      in case makedirs e f wallet_dir True of
           (Some err, f1) \<Rightarrow> \<lparr>raised = Some err, files = f1, stdout = out1\<rparr>
         | (None, f1) \<Rightarrow>
             (case open_w e f1 (path_join wallet_dir ''mnemonic.txt'') of
                Inl err \<Rightarrow> \<lparr>raised = Some err, files = f1, stdout = out1\<rparr>
              | Inr (f2, fd) \<Rightarrow>
                  (let f3 = write_close f2 fd MNEMONIC;
                       out2 = print out1 (''Created wallet marker at: '' @ wallet_dir);
                       out3 = print out2 ''Mnemonic saved for testing purposes''
                   in \<lparr>raised = None, files = f3, stdout = out3\<rparr>)))"

text \<open>
  \<open>if __name__ == "__main__": main()\<close>: the interpreter exits with 0 when \<open>main\<close>
  returns and with 1 when an exception escapes.
\<close>

definition exit_status :: "outcome \<Rightarrow> nat" where
  "exit_status r = (case raised r of None \<Rightarrow> 0 | Some err \<Rightarrow> 1)"

text \<open>Reading a file back (\<open>open(name).read()\<close>), to state what a run left behind.\<close>

definition read_file :: "loc \<Rightarrow> fs \<Rightarrow> string \<Rightarrow> oserror + string" where
  "read_file wd f s =
     (case stat wd f s of
        Inl e \<Rightarrow> Inl e
      | Inr (Dir w) \<Rightarrow> Inl EISDIR
      | Inr (File w d) \<Rightarrow> Inr d)"

text \<open>The lines of a text: the pieces that end in a newline.\<close>

definition text_lines :: "string \<Rightarrow> string list" where
  "text_lines s = butlast (split_on newline s)"

subsection \<open>What the claims speak about\<close>

text \<open>
  The home directory as \<open>expanduser\<close> finds it for \<open>~\<close>: \<open>HOME\<close> when it is set, the
  password database's entry for the user otherwise, and none when both are missing.
\<close>

definition home_directory :: "env \<Rightarrow> string option" where
  "home_directory e = (case environ_HOME e of None \<Rightarrow> getpwuid_dir e | Some h \<Rightarrow> Some h)"

text \<open>The local variable \<open>wallet_dir\<close> of \<open>main\<close>, and the path it opens.\<close>

definition wallet_dir :: "env \<Rightarrow> string" where
  "wallet_dir e = expanduser e ''~/.dig/wallets/test-wallet''"

definition marker_path :: "env \<Rightarrow> string" where
  "marker_path e = path_join (wallet_dir e) ''mnemonic.txt''"

text \<open>
  One file system extends another by directories only: every location holds what it
  held, or held nothing and holds a new directory, with the write bit \<open>b\<close>.
\<close>

definition only_adds_dirs :: "bool \<Rightarrow> fs \<Rightarrow> fs \<Rightarrow> bool" where
  "only_adds_dirs b f f' = (\<forall>q. f' q = f q \<or> (f q = None \<and> f' q = Some (Dir b)))"

text \<open>
  What \<open>expanduser\<close> puts in place of the \<open>~\<close> of \<open>~/.dig/wallets/test-wallet\<close>, and
  the parent of \<open>wallet_dir\<close>, which \<open>makedirs\<close> tests first.
\<close>

definition home_prefix :: "env \<Rightarrow> string" where
  "home_prefix e = (case home_directory e of None \<Rightarrow> ''~'' | Some h \<Rightarrow> rstrip sep h)"

definition wallets_dir :: "env \<Rightarrow> string" where
  "wallets_dir e = home_prefix e @ ''/.dig/wallets''"


subsection \<open>Example runs\<close>

text \<open>
  A clean home directory \<open>/tmp/fakehome\<close>, the process of user 1000 running in \<open>/srv\<close>
  with umask \<open>0o022\<close>; the same process with no \<open>HOME\<close> and no password entry; with
  umask \<open>0o222\<close>; as the superuser; and with a newline in \<open>HOME\<close>.
\<close>

definition env_tmp :: env where
  "env_tmp = \<lparr>environ_HOME = Some ''/tmp/fakehome'', getpwuid_dir = Some ''/home/u'',
              getpwnam_dir = (\<lambda>n. None), cwd = [''srv''], euid = 1000, umask = 18\<rparr>"


definition env_umask222 :: env where
  "env_umask222 = \<lparr>environ_HOME = Some ''/tmp/fakehome'', getpwuid_dir = Some ''/home/u'',
                   getpwnam_dir = (\<lambda>n. None), cwd = [''srv''], euid = 1000, umask = 146\<rparr>"

definition env_root :: env where
  "env_root = \<lparr>environ_HOME = Some ''/tmp/fakehome'', getpwuid_dir = Some ''/root'',
               getpwnam_dir = (\<lambda>n. None), cwd = [''srv''], euid = 0, umask = 18\<rparr>"

definition env_newline :: env where
  "env_newline = \<lparr>environ_HOME = Some (''/tmp/a'' @ [newline] @ ''b''),
                  getpwuid_dir = Some ''/home/u'',
                  getpwnam_dir = (\<lambda>n. None), cwd = [''srv''], euid = 1000, umask = 18\<rparr>"

definition fs_tmp :: fs where
  "fs_tmp = [[] \<mapsto> Dir True, [''tmp''] \<mapsto> Dir True, [''tmp'', ''fakehome''] \<mapsto> Dir True,
             [''srv''] \<mapsto> Dir True]"

text \<open>The same tree with a regular file where \<open>.dig\<close> would go.\<close>

definition fs_blocked :: fs where
  "fs_blocked = fs_tmp([''tmp'', ''fakehome'', ''.dig''] \<mapsto> File True ''plain file'')"


text \<open>
  The tree after an earlier import of another phrase, with a file beside \<open>wallets\<close>.
\<close>

definition fs_old :: fs where
  "fs_old = fs_tmp([''tmp'', ''fakehome'', ''.dig''] \<mapsto> Dir True,
      [''tmp'', ''fakehome'', ''.dig'', ''config.toml''] \<mapsto> File True ''network = test'',
      [''tmp'', ''fakehome'', ''.dig'', ''wallets''] \<mapsto> Dir True,
      [''tmp'', ''fakehome'', ''.dig'', ''wallets'', ''test-wallet''] \<mapsto> Dir True,
      [''tmp'', ''fakehome'', ''.dig'', ''wallets'', ''test-wallet'', ''mnemonic.txt'']
        \<mapsto> File True ''abandon abandon about'')"

text \<open>The same, with a marker that has lost its write bit; and with no marker yet.\<close>

definition fs_old_readonly :: fs where
  "fs_old_readonly =
     fs_old([''tmp'', ''fakehome'', ''.dig'', ''wallets'', ''test-wallet'', ''mnemonic.txt'']
       \<mapsto> File False ''abandon abandon about'')"

definition fs_wallet :: fs where
  "fs_wallet =
     fs_old([''tmp'', ''fakehome'', ''.dig'', ''wallets'', ''test-wallet'', ''mnemonic.txt'']
       := None)"

subsection \<open>Splitting strings at slashes\<close>

lemma split_on_nonempty: "split_on c s \<noteq> []"
  by (induction s) (auto split: list.splits)

lemma split_on_append: "split_on c (a @ c # b) = split_on c a @ split_on c b"
proof (induction a)
  case Nil
  show ?case by simp
next
  case (Cons x a)
  show ?case
  proof (cases "x = c")
    case True
    with Cons show ?thesis by simp
  next
    case False
    obtain w ws where w: "split_on c a = w # ws"
      using split_on_nonempty [of c a] by (cases "split_on c a") auto
    with False Cons show ?thesis by simp
  qed
qed

lemma split_on_absent: "c \<notin> set s \<Longrightarrow> split_on c s = [s]"
  by (induction s) auto

lemma path_components_append:
  "path_components (a @ sep # b) = path_components a @ path_components b"
  by (simp add: path_components_def split_on_append)

lemma path_components_name:
  "sep \<notin> set t \<Longrightarrow> t \<noteq> [] \<Longrightarrow> path_components t = [t]"
  by (simp add: path_components_def split_on_absent)

lemma path_components_Nil: "path_components [] = []"
  by (simp add: path_components_def)

lemma path_components_snoc_sep: "path_components (a @ [sep]) = path_components a"
  using path_components_append [of a "[]"] by (simp add: path_components_Nil)

lemma path_components_replicate: "path_components (a @ replicate n sep) = path_components a"
proof (induction n)
  case 0
  show ?case by simp
next
  case (Suc n)
  have "a @ replicate (Suc n) sep = (a @ replicate n sep) @ [sep]"
    by (simp add: replicate_append_same)
  with Suc show ?case
    by (simp only: path_components_snoc_sep)
qed

lemma rstrip_decomp: "\<exists>n. s = rstrip c s @ replicate n c"
proof -
  have "rev s = takeWhile (\<lambda>x. x = c) (rev s) @ dropWhile (\<lambda>x. x = c) (rev s)"
    by simp
  moreover have "takeWhile (\<lambda>x. x = c) (rev s) = replicate (length (takeWhile (\<lambda>x. x = c) (rev s))) c"
    by (rule replicate_length_same [symmetric]) (auto dest: set_takeWhileD)
  ultimately have "rev s = replicate (length (takeWhile (\<lambda>x. x = c) (rev s))) c @ dropWhile (\<lambda>x. x = c) (rev s)"
    by simp
  then have "s = rev (replicate (length (takeWhile (\<lambda>x. x = c) (rev s))) c @ dropWhile (\<lambda>x. x = c) (rev s))"
    by (metis rev_rev_ident)
  then show ?thesis
    unfolding rstrip_def by (metis rev_append rev_replicate)
qed

lemma path_components_rstrip: "path_components (rstrip sep s) = path_components s"
proof -
  obtain n where "s = rstrip sep s @ replicate n sep"
    using rstrip_decomp by blast
  then show ?thesis
    using path_components_replicate [of "rstrip sep s" n] by simp
qed

lemma rstrip_last: "rstrip c s \<noteq> [] \<Longrightarrow> last (rstrip c s) \<noteq> c"
proof -
  assume "rstrip c s \<noteq> []"
  then have ne: "dropWhile (\<lambda>x. x = c) (rev s) \<noteq> []" by (simp add: rstrip_def)
  then have "hd (dropWhile (\<lambda>x. x = c) (rev s)) \<noteq> c"
    using hd_dropWhile [of "\<lambda>x. x = c" "rev s"] by simp
  with ne show ?thesis by (simp add: rstrip_def last_rev)
qed

lemma rstrip_snoc: "x \<noteq> c \<Longrightarrow> rstrip c (s @ [x]) = s @ [x]"
  by (simp add: rstrip_def)

lemma rstrip_snoc_same: "rstrip c (s @ [c]) = rstrip c s"
  by (simp add: rstrip_def)

lemma rfind_succ_append:
  "c \<notin> set t \<Longrightarrow> rfind_succ c (h @ c # t) = Suc (length h)"
proof -
  assume "c \<notin> set t"
  then have "takeWhile (\<lambda>x. x \<noteq> c) (rev t @ c # rev h) = rev t"
    by (auto simp: takeWhile_tail)
  then show ?thesis by (simp add: rfind_succ_def)
qed

lemma path_split_append:
  assumes "sep \<notin> set t" and "h \<noteq> []" and "last h \<noteq> sep"
  shows "path_split (h @ sep # t) = (h, t)"
proof -
  have i: "rfind_succ sep (h @ sep # t) = Suc (length h)"
    using assms(1) by (rule rfind_succ_append)
  have tk: "take (Suc (length h)) (h @ sep # t) = h @ [sep]" by simp
  have dr: "drop (Suc (length h)) (h @ sep # t) = t" by simp
  have "last h \<in> set (h @ [sep])" using assms(2) by simp
  then have nrep: "h @ [sep] \<noteq> replicate (length (h @ [sep])) sep"
    using assms(3) by (metis in_set_replicate)
  have "rstrip sep (h @ [sep]) = h"
    using assms(2,3) rstrip_snoc [of "last h" sep "butlast h"]
    by (simp add: rstrip_snoc_same)
  with nrep show ?thesis
    unfolding path_split_def Let_def i tk dr by simp
qed


subsection \<open>The paths of the script, path resolution, and what \<open>makedirs\<close> leaves alone\<close>

lemma wallet_dir_eq: "wallet_dir e = home_prefix e @ ''/.dig/wallets/test-wallet''"
  by (simp add: wallet_dir_def expanduser_def find_from1_def sep_def home_prefix_def
      home_directory_def Let_def split: option.splits)

lemma home_prefix_last: "home_prefix e = [] \<or> last (home_prefix e) \<noteq> sep"
  by (auto simp: home_prefix_def sep_def dest: rstrip_last split: option.splits)

lemma wallet_dir_split:
  "path_split (wallet_dir e) = (home_prefix e @ ''/.dig/wallets'', ''test-wallet'')"
proof -
  have "path_split ((home_prefix e @ ''/.dig/wallets'') @ sep # ''test-wallet'')
        = (home_prefix e @ ''/.dig/wallets'', ''test-wallet'')"
    by (rule path_split_append) (simp_all add: sep_def)
  then show ?thesis by (simp add: wallet_dir_eq sep_def)
qed

lemma wallet_dir_makedirs_split:
  "makedirs_split (wallet_dir e) = (home_prefix e @ ''/.dig/wallets'', ''test-wallet'')"
  by (simp add: makedirs_split_def wallet_dir_split)

lemma marker_path_eq: "marker_path e = wallet_dir e @ ''/mnemonic.txt''"
  by (simp add: marker_path_def path_join_def wallet_dir_eq sep_def)

lemma wallet_dir_components:
  "path_components (wallet_dir e) = path_components (home_prefix e) @ [''.dig'', ''wallets'', ''test-wallet'']"
proof -
  have "path_components (home_prefix e @ sep # ''.dig'' @ sep # ''wallets'' @ sep # ''test-wallet'')
        = path_components (home_prefix e) @ path_components ''.dig'' @ path_components ''wallets'' @ path_components ''test-wallet''"
    by (simp only: path_components_append)
  moreover have "path_components ''.dig'' = [''.dig'']" "path_components ''wallets'' = [''wallets'']"
    "path_components ''test-wallet'' = [''test-wallet'']"
    by (simp_all add: path_components_name sep_def)
  ultimately show ?thesis by (simp add: wallet_dir_eq sep_def)
qed

lemma marker_path_components:
  "path_components (marker_path e) = path_components (wallet_dir e) @ [''mnemonic.txt'']"
proof -
  have "path_components (wallet_dir e @ sep # ''mnemonic.txt'')
        = path_components (wallet_dir e) @ path_components ''mnemonic.txt''"
    by (simp only: path_components_append)
  moreover have "path_components ''mnemonic.txt'' = [''mnemonic.txt'']"
    by (simp add: path_components_name sep_def)
  ultimately show ?thesis by (simp add: marker_path_eq sep_def)
qed

lemma marker_path_hd: "hd (marker_path e) = hd (wallet_dir e)" "marker_path e \<noteq> []" "wallet_dir e \<noteq> []"
  by (cases "home_prefix e"; simp add: marker_path_eq wallet_dir_eq)+

lemma walk_append:
  "walk f cur (cs @ ds) = (case walk f cur cs of Inl e \<Rightarrow> Inl e | Inr p \<Rightarrow> walk f p ds)"
  by (induction cs arbitrary: cur) (auto split: option.splits node.splits)

lemma walk_snoc_Inr:
  assumes "walk f cur (cs @ [c]) = Inr p"
  shows "\<exists>q w. walk f cur cs = Inr q \<and> f q = Some (Dir w) \<and> p = step q c"
  using assms by (auto simp: walk_append split: sum.splits option.splits node.splits)

lemma walk_mono:
  assumes "\<And>q w. f q = Some (Dir w) \<Longrightarrow> f' q = Some (Dir w)"
  shows "walk f cur cs = Inr p \<Longrightarrow> walk f' cur cs = Inr p"
proof (induction cs arbitrary: cur)
  case Nil
  then show ?case by simp
next
  case (Cons c cs)
  then show ?case
    by (cases "f cur") (auto split: node.splits dest: assms)
qed

lemma namei_mono:
  assumes "\<And>q w. f q = Some (Dir w) \<Longrightarrow> f' q = Some (Dir w)"
  shows "namei wd f s = Inr p \<Longrightarrow> namei wd f' s = Inr p"
  unfolding namei_def using walk_mono [of f f', OF assms]
  by (auto split: if_splits)

lemma only_adds_dirs_refl: "only_adds_dirs b f f"
  by (simp add: only_adds_dirs_def)

lemma only_adds_dirs_trans: "only_adds_dirs b f g \<Longrightarrow> only_adds_dirs b g h \<Longrightarrow> only_adds_dirs b f h"
  unfolding only_adds_dirs_def by metis


lemma mkdir_Inr:
  assumes "mkdir e f s = Inr f'"
  shows "\<exists>p. namei (cwd e) f s = Inr p \<and> f p = None \<and> f' = f(p \<mapsto> Dir (new_write_bit e))"
  using assms
  by (auto simp: mkdir_def create_def split: sum.splits option.splits node.splits if_splits)

lemma mkdir_exist_ok_adds:
  assumes "mkdir_exist_ok e f name ok = (r, f')"
  shows "only_adds_dirs (new_write_bit e) f f'"
proof (cases "mkdir e f name")
  case (Inl err)
  with assms have "f' = f" by (auto simp: mkdir_exist_ok_def split: if_splits)
  then show ?thesis by (simp add: only_adds_dirs_refl)
next
  case (Inr g)
  with assms have "f' = g" by (simp add: mkdir_exist_ok_def)
  with Inr mkdir_Inr [of e f name f'] show ?thesis
    by (auto simp: only_adds_dirs_def split: if_splits)
qed

lemma makedirs_adds:
  "makedirs e f name ok = (r, f') \<Longrightarrow> only_adds_dirs (new_write_bit e) f f'"
proof (induction e f name ok arbitrary: r f' rule: makedirs.induct)
  case (1 e f name ok)
  let ?head = "fst (makedirs_split name)" and ?tail = "snd (makedirs_split name)"
  show ?case
  proof (cases "?head \<noteq> [] \<and> ?tail \<noteq> [] \<and> \<not> path_exists (cwd e) f ?head")
    case False
    with "1.prems" have "mkdir_exist_ok e f name ok = (r, f')"
      by (subst (asm) makedirs.simps) (simp add: Let_def)
    then show ?thesis by (rule mkdir_exist_ok_adds)
  next
    case True
    obtain r1 f1 where rec: "makedirs e f ?head ok = (r1, f1)"
      by (cases "makedirs e f ?head ok")
    have step1: "only_adds_dirs (new_write_bit e) f f1"
      using "1.IH" [OF refl refl True rec] .
    from "1.prems" True rec have "f' = f1 \<or> mkdir_exist_ok e f1 name ok = (r, f')"
      by (subst (asm) makedirs.simps) (auto simp: Let_def split: option.splits if_splits)
    then show ?thesis
      using step1 by (auto intro: only_adds_dirs_trans mkdir_exist_ok_adds)
  qed
qed

subsection \<open>\<open>makedirs\<close> on the wallet directory, and the runs of \<open>main\<close>\<close>

lemma makedirs_wallet_unfold:
  "makedirs e f (wallet_dir e) True =
     (if \<not> path_exists (cwd e) f (wallets_dir e)
      then (case makedirs e f (wallets_dir e) True of
              (Some err, f1) \<Rightarrow>
                if err \<noteq> EEXIST then (Some err, f1)
                else mkdir_exist_ok e f1 (wallet_dir e) True
            | (None, f1) \<Rightarrow> mkdir_exist_ok e f1 (wallet_dir e) True)
      else mkdir_exist_ok e f (wallet_dir e) True)"
  by (subst makedirs.simps)
     (simp add: wallet_dir_makedirs_split wallets_dir_def Let_def
        split: prod.splits option.splits)

lemma stat_Inr:
  "\<not> trailing_slash s \<Longrightarrow>
     stat wd f s = Inr n \<longleftrightarrow> (\<exists>p. namei wd f s = Inr p \<and> f p = Some n)"
  by (auto simp: stat_def split: sum.splits option.splits node.splits)

lemma marker_path_no_slash: "\<not> trailing_slash (marker_path e)"
  by (simp add: trailing_slash_def marker_path_eq sep_def)

lemma wallet_dir_no_slash: "\<not> trailing_slash (wallet_dir e)"
  by (simp add: trailing_slash_def wallet_dir_eq sep_def)

lemma path_isdir_iff:
  "path_isdir wd f s \<longleftrightarrow> (\<exists>p w. namei wd f s = Inr p \<and> f p = Some (Dir w))"
  by (auto simp: path_isdir_def stat_def split: sum.splits option.splits node.splits if_splits)

lemma path_exists_iff:
  "path_exists wd f s \<longleftrightarrow>
     (\<exists>p n. namei wd f s = Inr p \<and> f p = Some n
        \<and> (trailing_slash s \<longrightarrow> (\<exists>w. n = Dir w)))"
  by (auto simp: path_exists_def stat_def split: sum.splits option.splits node.splits if_splits)


lemma mkdir_exist_ok_existing:
  assumes "path_isdir (cwd e) f name"
  shows "mkdir_exist_ok e f name True = (None, f)"
proof -
  from assms obtain p w where "namei (cwd e) f name = Inr p" "f p = Some (Dir w)"
    by (auto simp: path_isdir_iff)
  then have "mkdir e f name = Inl EEXIST" by (simp add: mkdir_def)
  with assms show ?thesis by (simp add: mkdir_exist_ok_def)
qed


lemma wallets_dir_facts:
  "path_components (wallet_dir e) = path_components (wallets_dir e) @ [''test-wallet'']"
  "hd (wallets_dir e) = hd (wallet_dir e)" "wallets_dir e \<noteq> []"
proof -
  have "path_components (home_prefix e @ sep # ''.dig'' @ sep # ''wallets'')
        = path_components (home_prefix e) @ path_components ''.dig'' @ path_components ''wallets''"
    by (simp only: path_components_append)
  moreover have "path_components ''.dig'' = [''.dig'']" "path_components ''wallets'' = [''wallets'']"
    by (simp_all add: path_components_name sep_def)
  ultimately show "path_components (wallet_dir e) = path_components (wallets_dir e) @ [''test-wallet'']"
    by (simp add: wallet_dir_components wallets_dir_def sep_def)
  show "hd (wallets_dir e) = hd (wallet_dir e)"
    by (cases "home_prefix e") (simp_all add: wallets_dir_def wallet_dir_eq)
  show "wallets_dir e \<noteq> []" by (simp add: wallets_dir_def)
qed

lemma isdir_wallet_parent:
  assumes "path_isdir wd f (wallet_dir e)"
  shows "path_exists wd f (wallets_dir e)"
proof -
  let ?start = "if hd (wallet_dir e) = sep then [] else wd"
  from assms obtain p where "walk f ?start (path_components (wallets_dir e) @ [''test-wallet'']) = Inr p"
    by (auto simp: path_isdir_iff namei_def wallets_dir_facts(1) split: if_splits)
  then obtain q w where "walk f ?start (path_components (wallets_dir e)) = Inr q" "f q = Some (Dir w)"
    using walk_snoc_Inr by blast
  then show ?thesis
    by (auto simp: path_exists_iff namei_def wallets_dir_facts)
qed

lemma makedirs_wallet_existing:
  assumes "path_isdir (cwd e) f (wallet_dir e)"
  shows "makedirs e f (wallet_dir e) True = (None, f)"
  using assms isdir_wallet_parent [OF assms]
  by (simp add: makedirs_wallet_unfold mkdir_exist_ok_existing)

lemma open_w_Inr:
  assumes "open_w e f s = Inr (f2, p)"
  shows "namei (cwd e) f s = Inr p \<and> \<not> trailing_slash s
         \<and> (\<exists>w. (f p = None \<and> w = new_write_bit e
                  \<or> (\<exists>d. f p = Some (File w d) \<and> may_write e w))
                \<and> write_close f2 p data = f(p \<mapsto> File w data))"
  using assms
  by (auto simp: open_w_def create_def write_close_def
      split: sum.splits option.splits node.splits if_splits)

lemma main_success:
  assumes "raised (main e f) = None"
  shows "\<exists>f1 p w. makedirs e f (wallet_dir e) True = (None, f1)
           \<and> namei (cwd e) f1 (marker_path e) = Inr p
           \<and> (f1 p = None \<and> w = new_write_bit e
                \<or> (\<exists>d. f1 p = Some (File w d) \<and> may_write e w))
           \<and> files (main e f) = f1(p \<mapsto> File w MNEMONIC)
           \<and> stdout (main e f) =
               ''Importing wallet with provided mnemonic...'' @ [newline]
               @ (''Created wallet marker at: '' @ wallet_dir e) @ [newline]
               @ ''Mnemonic saved for testing purposes'' @ [newline]"
proof -
  obtain r f1 where m: "makedirs e f (wallet_dir e) True = (r, f1)"
    by (cases "makedirs e f (wallet_dir e) True")
  with assms have r: "r = None"
    by (cases r) (auto simp: main_def Let_def wallet_dir_def)
  from assms m r obtain f2 p where o: "open_w e f1 (marker_path e) = Inr (f2, p)"
    by (cases "open_w e f1 (marker_path e)")
       (auto simp: main_def Let_def wallet_dir_def marker_path_def)
  from m r o have "files (main e f) = write_close f2 p MNEMONIC"
    and "stdout (main e f) =
               ''Importing wallet with provided mnemonic...'' @ [newline]
               @ (''Created wallet marker at: '' @ wallet_dir e) @ [newline]
               @ ''Mnemonic saved for testing purposes'' @ [newline]"
    by (simp_all add: main_def Let_def wallet_dir_def marker_path_def print_def)
  with open_w_Inr [OF o, of MNEMONIC] m r show ?thesis by auto
qed

lemma main_failure:
  assumes "raised (main e f) = Some err"
  shows "stdout (main e f) = ''Importing wallet with provided mnemonic...'' @ [newline]
         \<and> (\<exists>r. makedirs e f (wallet_dir e) True = (r, files (main e f)))"
  using assms
  by (auto simp: main_def Let_def wallet_dir_def marker_path_def print_def
      split: prod.splits option.splits sum.splits)

subsection \<open>\<open>makedirs\<close> on any path\<close>

lemma rstrip_hd: "rstrip c s \<noteq> [] \<Longrightarrow> hd (rstrip c s) = hd s"
proof -
  assume ne: "rstrip c s \<noteq> []"
  obtain n where "s = rstrip c s @ replicate n c" using rstrip_decomp by blast
  then have "hd s = hd (rstrip c s @ replicate n c)" by simp
  with ne show ?thesis by simp
qed

lemma rstrip_replicate: "rstrip c (replicate n c) = []"
  by (simp add: rstrip_def)

text \<open>What \<open>path_split\<close> returns, in terms of the text before and after the last slash.\<close>

lemma path_split_decomp:
  "\<exists>a t. p = a @ t \<and> sep \<notin> set t \<and> (a = [] \<or> last a = sep) \<and> snd (path_split p) = t
     \<and> fst (path_split p) = (if a = replicate (length a) sep then a else rstrip sep a)"
proof -
  let ?i = "rfind_succ sep p"
  let ?t = "takeWhile (\<lambda>x. x \<noteq> sep) (rev p)"
  have i: "?i = length p - length ?t" by (simp add: rfind_succ_def)
  have revp: "rev p = ?t @ dropWhile (\<lambda>x. x \<noteq> sep) (rev p)" by simp
  have le: "length ?t \<le> length p"
    using length_takeWhile_le [of "\<lambda>x. x \<noteq> sep" "rev p"] by simp
  have dr: "drop ?i p = rev ?t"
  proof -
    have "rev (drop ?i p) = take (length ?t) (rev p)"
      using le by (simp add: i rev_drop)
    also have "\<dots> = ?t" by (rule takeWhile_eq_take [symmetric])
    finally show ?thesis by (metis rev_rev_ident)
  qed
  have tk: "take ?i p = rev (dropWhile (\<lambda>x. x \<noteq> sep) (rev p))"
  proof -
    have "rev (take ?i p) = drop (length ?t) (rev p)"
      using le by (simp add: i rev_take)
    also have "\<dots> = dropWhile (\<lambda>x. x \<noteq> sep) (rev p)"
      by (rule dropWhile_eq_drop [symmetric])
    finally show ?thesis by (metis rev_rev_ident)
  qed
  have t: "sep \<notin> set (drop ?i p)"
    unfolding dr using set_takeWhileD [of sep "\<lambda>x. x \<noteq> sep" "rev p"] by auto
  have a: "take ?i p = [] \<or> last (take ?i p) = sep"
  proof (cases "dropWhile (\<lambda>x. x \<noteq> sep) (rev p)")
    case Nil
    then show ?thesis by (simp add: tk)
  next
    case (Cons x xs)
    then have "x = sep" using hd_dropWhile [of "\<lambda>x. x \<noteq> sep" "rev p"] by auto
    with Cons show ?thesis by (simp add: tk)
  qed
  have "p = take ?i p @ drop ?i p" by simp
  moreover have "snd (path_split p) = drop ?i p" by (simp add: path_split_def Let_def)
  moreover have "fst (path_split p) =
      (if take ?i p = replicate (length (take ?i p)) sep then take ?i p else rstrip sep (take ?i p))"
    by (auto simp: path_split_def Let_def)
  ultimately show ?thesis using t a by blast
qed

lemma path_split_components:
  assumes "snd (path_split p) \<noteq> []" and "fst (path_split p) \<noteq> []"
  shows "path_components p = path_components (fst (path_split p)) @ [snd (path_split p)]
         \<and> hd (fst (path_split p)) = hd p"
proof -
  obtain a t where d: "p = a @ t" "sep \<notin> set t" "a = [] \<or> last a = sep" "snd (path_split p) = t"
      "fst (path_split p) = (if a = replicate (length a) sep then a else rstrip sep a)"
    using path_split_decomp by blast
  from assms d have t: "t \<noteq> []" by simp
  from assms(2) d have a: "a \<noteq> []" by (auto simp: rstrip_def split: if_splits)
  with d(3) obtain a' where a': "a = a' @ [sep]"
    by (metis append_butlast_last_id)
  have "path_components p = path_components a' @ [t]"
    using d(1,2) t a' by (simp add: path_components_append path_components_name)
  moreover have "path_components a = path_components a'"
    using a' by (simp add: path_components_snoc_sep)
  then have "path_components (fst (path_split p)) = path_components a'"
    by (simp add: d(5) path_components_rstrip)
  moreover have "hd (fst (path_split p)) = hd p"
    using d(1,5) a assms(2) by (auto simp: rstrip_hd split: if_splits)
  ultimately show ?thesis using d(4) by simp
qed

lemma path_split_Nil_snd:
  assumes "snd (path_split p) = []"
  shows "path_components (fst (path_split p)) = path_components p"
    and "fst (path_split p) \<noteq> [] \<Longrightarrow> hd (fst (path_split p)) = hd p"
proof -
  obtain a t where d: "p = a @ t" "snd (path_split p) = t"
      "fst (path_split p) = (if a = replicate (length a) sep then a else rstrip sep a)"
    using path_split_decomp by blast
  with assms have p: "p = a" by simp
  show "path_components (fst (path_split p)) = path_components p"
    using d(3) p by (auto simp: path_components_rstrip)
  show "fst (path_split p) \<noteq> [] \<Longrightarrow> hd (fst (path_split p)) = hd p"
    using d(3) p by (auto simp: rstrip_hd split: if_splits)
qed

lemma makedirs_split_components:
  assumes "fst (makedirs_split name) \<noteq> []" and "snd (makedirs_split name) \<noteq> []"
  shows "path_components name = path_components (fst (makedirs_split name)) @ [snd (makedirs_split name)]
         \<and> hd (fst (makedirs_split name)) = hd name"
proof (cases "snd (path_split name) = []")
  case False
  with assms show ?thesis
    using path_split_components [of name] by (simp add: makedirs_split_def Let_def)
next
  case True
  let ?h = "fst (path_split name)"
  from True assms have s: "snd (path_split ?h) \<noteq> []" "fst (path_split ?h) \<noteq> []"
    by (simp_all add: makedirs_split_def Let_def)
  have "path_split [] = ([], [])" by (simp add: path_split_def rfind_succ_def)
  with s(2) have "?h \<noteq> []" by auto
  with True have "path_components ?h = path_components name" "hd ?h = hd name"
    using path_split_Nil_snd [of name] by simp_all
  with path_split_components [OF s] True show ?thesis
    by (simp add: makedirs_split_def Let_def)
qed

lemma isdir_parent:
  assumes "path_isdir wd f name"
    and "fst (makedirs_split name) \<noteq> []" and "snd (makedirs_split name) \<noteq> []"
  shows "path_isdir wd f (fst (makedirs_split name))"
proof -
  let ?head = "fst (makedirs_split name)" and ?tail = "snd (makedirs_split name)"
  let ?start = "if hd name = sep then [] else wd"
  have c: "path_components name = path_components ?head @ [?tail]" "hd ?head = hd name"
    using makedirs_split_components [OF assms(2,3)] by simp_all
  from assms(1) obtain p where "walk f ?start (path_components ?head @ [?tail]) = Inr p"
    by (auto simp: path_isdir_iff namei_def c(1) split: if_splits)
  then obtain q w where "walk f ?start (path_components ?head) = Inr q" "f q = Some (Dir w)"
    using walk_snoc_Inr by blast
  then show ?thesis
    using assms(2) by (auto simp: path_isdir_iff namei_def c(2))
qed

lemma path_isdir_exists: "path_isdir wd f s \<Longrightarrow> path_exists wd f s"
  by (auto simp: path_isdir_iff path_exists_iff)

lemma makedirs_existing:
  assumes "path_isdir (cwd e) f name"
  shows "makedirs e f name True = (None, f)"
proof -
  let ?head = "fst (makedirs_split name)" and ?tail = "snd (makedirs_split name)"
  have "\<not> (?head \<noteq> [] \<and> ?tail \<noteq> [] \<and> \<not> path_exists (cwd e) f ?head)"
    using isdir_parent [OF assms] path_isdir_exists by blast
  then have "makedirs e f name True = mkdir_exist_ok e f name True"
    by (subst makedirs.simps) (auto simp: Let_def)
  with assms show ?thesis by (simp add: mkdir_exist_ok_existing)
qed



subsection \<open>The marker file after a run\<close>

lemma home_prefix_Some: "home_directory e = Some H \<Longrightarrow> home_prefix e = rstrip sep H"
  by (simp add: home_prefix_def)


lemma namei_rstrip:
  "namei wd f (rstrip sep H @ sep # t) = namei wd f (H @ sep # t)"
proof -
  obtain n where n: "H = rstrip sep H @ replicate n sep"
    using rstrip_decomp by blast
  have "hd (rstrip sep H @ sep # t) = sep \<longleftrightarrow> hd (H @ sep # t) = sep"
  proof (cases "rstrip sep H")
    case Nil
    with n have "H = replicate n sep" by simp
    then have "hd (H @ sep # t) = sep" by (cases n) auto
    with Nil show ?thesis by simp
  next
    case (Cons x xs)
    with n have "H = x # xs @ replicate n sep" by simp
    with Cons show ?thesis by simp
  qed
  moreover have "path_components (rstrip sep H @ sep # t) = path_components (H @ sep # t)"
    by (simp add: path_components_append path_components_rstrip)
  ultimately show ?thesis by (simp add: namei_def)
qed

lemma namei_home_path:
  assumes "home_directory e = Some H"
  shows "namei wd f (H @ ''/.dig/wallets/test-wallet/mnemonic.txt'') = namei wd f (marker_path e)"
  using namei_rstrip [of wd f H "''.dig/wallets/test-wallet/mnemonic.txt''"]
  by (simp add: marker_path_eq wallet_dir_eq home_prefix_Some [OF assms] sep_def)

lemma stat_home_path:
  assumes "home_directory e = Some H"
  shows "stat wd f (H @ ''/.dig/wallets/test-wallet/mnemonic.txt'') = stat wd f (marker_path e)"
proof -
  have "\<not> trailing_slash (H @ ''/.dig/wallets/test-wallet/mnemonic.txt'')"
    by (simp add: trailing_slash_def sep_def)
  then show ?thesis
    using marker_path_no_slash [of e]
    by (simp add: stat_def namei_home_path [OF assms] split: sum.splits option.splits node.splits)
qed

lemma namei_upd_file:
  assumes "namei wd f s = Inr q" and "f p = None \<or> (\<exists>w d. f p = Some (File w d))"
  shows "namei wd (f(p \<mapsto> n)) s = Inr q"
  using assms(1) by (rule namei_mono [rotated]) (use assms(2) in auto)

lemma main_success_stat:
  assumes "raised (main e f) = None"
  shows "\<exists>w. stat (cwd e) (files (main e f)) (marker_path e) = Inr (File w MNEMONIC)"
proof -
  from main_success [OF assms] obtain f1 p w where
    p: "namei (cwd e) f1 (marker_path e) = Inr p"
       "f1 p = None \<and> w = new_write_bit e \<or> (\<exists>d. f1 p = Some (File w d) \<and> may_write e w)"
       "files (main e f) = f1(p \<mapsto> File w MNEMONIC)"
    by blast
  have "namei (cwd e) (f1(p \<mapsto> File w MNEMONIC)) (marker_path e) = Inr p"
    using p(1) by (rule namei_upd_file) (use p(2) in auto)
  with p(3) show ?thesis by (auto simp: stat_Inr [OF marker_path_no_slash])
qed

lemma marker_isdir_wallet:
  assumes "namei wd f (marker_path e) = Inr p"
  shows "path_isdir wd f (wallet_dir e)"
proof -
  let ?start = "if hd (wallet_dir e) = sep then [] else wd"
  from assms have "walk f ?start (path_components (wallet_dir e) @ [''mnemonic.txt'']) = Inr p"
    by (simp add: namei_def marker_path_components marker_path_hd)
  then obtain q w where "walk f ?start (path_components (wallet_dir e)) = Inr q" "f q = Some (Dir w)"
    using walk_snoc_Inr by blast
  then show ?thesis
    by (auto simp: path_isdir_iff namei_def marker_path_hd)
qed

lemma main_on_existing:
  assumes "namei (cwd e) f (marker_path e) = Inr p" and "f p = Some (File w d)"
  shows "main e f =
           (if may_write e w then \<lparr>raised = None, files = f(p \<mapsto> File w MNEMONIC),
                      stdout = ''Importing wallet with provided mnemonic...'' @ [newline]
                        @ (''Created wallet marker at: '' @ wallet_dir e) @ [newline]
                        @ ''Mnemonic saved for testing purposes'' @ [newline]\<rparr>
            else \<lparr>raised = Some EACCES, files = f,
                  stdout = ''Importing wallet with provided mnemonic...'' @ [newline]\<rparr>)"
proof -
  have m: "makedirs e f (wallet_dir e) True = (None, f)"
    using marker_isdir_wallet [OF assms(1)] by (rule makedirs_existing)
  have o: "open_w e f (marker_path e) =
             (if may_write e w then Inr (f(p \<mapsto> File w []), p) else Inl EACCES)"
    using assms marker_path_no_slash [of e] by (simp add: open_w_def)
  show ?thesis
    using assms(2)
    by (simp add: main_def Let_def m o print_def write_close_def
        wallet_dir_def [symmetric] marker_path_def [symmetric])
qed

subsection \<open>\<open>makedirs\<close> where directories are missing\<close>










section \<open>The claims\<close>

text \<open>
  C1. After a successful run with home directory \<open>H\<close>, reading
  \<open>H/.dig/wallets/test-wallet/mnemonic.txt\<close> gives exactly the configured phrase,
  which does not end in a newline.
\<close>

theorem marker_holds_mnemonic:
  assumes "home_directory e = Some H" and "raised (main e f) = None"
  shows "read_file (cwd e) (files (main e f)) (H @ ''/.dig/wallets/test-wallet/mnemonic.txt'')
           = Inr MNEMONIC
         \<and> last MNEMONIC \<noteq> newline"
proof -
  obtain w where
    "stat (cwd e) (files (main e f)) (H @ ''/.dig/wallets/test-wallet/mnemonic.txt'')
       = Inr (File w MNEMONIC)"
    using main_success_stat [OF assms(2)] by (auto simp: stat_home_path [OF assms(1)])
  moreover have "last MNEMONIC \<noteq> newline"
    by (simp add: MNEMONIC_def newline_def)
  ultimately show ?thesis by (simp add: read_file_def)
qed

lemma run_tmp_ok: "raised (main env_tmp fs_tmp) = None"
  by code_simp

theorem marker_holds_mnemonic_witness:
  "home_directory env_tmp = Some ''/tmp/fakehome''
   \<and> raised (main env_tmp fs_tmp) = None
   \<and> read_file [''srv''] (files (main env_tmp fs_tmp))
        ''/tmp/fakehome/.dig/wallets/test-wallet/mnemonic.txt'' = Inr MNEMONIC"
proof -
  have h: "home_directory env_tmp = Some ''/tmp/fakehome''"
    by (simp add: home_directory_def env_tmp_def)
  have c: "cwd env_tmp = [''srv'']" by (simp add: env_tmp_def)
  show ?thesis
    using marker_holds_mnemonic [OF h run_tmp_ok] h run_tmp_ok c by simp
qed

lemma split_on_lines3:
  assumes "c \<notin> set x" "c \<notin> set y" "c \<notin> set z"
  shows "butlast (split_on c (x @ [c] @ y @ [c] @ z @ [c])) = [x, y, z]"
proof -
  have "split_on c (x @ c # (y @ c # (z @ c # []))) = split_on c x @ split_on c y @ split_on c z @ split_on c []"
    by (simp only: split_on_append)
  with assms show ?thesis by (simp add: split_on_absent)
qed

lemma split_on_lines1:
  assumes "c \<notin> set x"
  shows "butlast (split_on c (x @ [c])) = [x]"
  using split_on_append [of c x "[]"] assms by (simp add: split_on_absent)

lemma split_on_lines:
  assumes "c \<notin> set x" "c \<notin> set z"
  shows "butlast (split_on c (x @ [c] @ y @ [c] @ z @ [c])) = x # split_on c y @ [z]"
proof -
  have "split_on c (x @ c # (y @ c # (z @ c # []))) = split_on c x @ split_on c y @ split_on c z @ split_on c []"
    by (simp only: split_on_append)
  with assms show ?thesis by (simp add: split_on_absent butlast_append)
qed

lemma hd_split_on: "hd (split_on c s) = takeWhile (\<lambda>x. x \<noteq> c) s"
proof (induction s)
  case Nil
  show ?case by simp
next
  case (Cons x s)
  obtain w ws where "split_on c s = w # ws"
    using split_on_nonempty [of c s] by (cases "split_on c s") auto
  with Cons show ?case by simp
qed

lemma length_split_on: "length (split_on c s) = Suc (count_list s c)"
proof (induction s)
  case Nil
  show ?case by simp
next
  case (Cons x s)
  obtain w ws where "split_on c s = w # ws"
    using split_on_nonempty [of c s] by (cases "split_on c s") auto
  with Cons show ?case by auto
qed

text \<open>
  C2, amended. A successful run prints three status texts, not two: the notice that the
  import starts, the text with the directory as \<open>expanduser\<close> returned it, and the
  closing text. These are exactly three lines when the directory's text holds no
  newline, and one line more for every newline in it; the second line is always
  \<open>Created wallet marker at: \<close> followed by the directory, up to its first newline.
\<close>

theorem success_prints_three_lines:
  assumes "raised (main e f) = None"
  shows "stdout (main e f) =
           ''Importing wallet with provided mnemonic...'' @ [newline]
           @ (''Created wallet marker at: '' @ wallet_dir e) @ [newline]
           @ ''Mnemonic saved for testing purposes'' @ [newline]
         \<and> (newline \<notin> set (wallet_dir e) \<longrightarrow>
              text_lines (stdout (main e f)) =
                [''Importing wallet with provided mnemonic...'',
                 ''Created wallet marker at: '' @ wallet_dir e,
                 ''Mnemonic saved for testing purposes''])
         \<and> text_lines (stdout (main e f)) =
              ''Importing wallet with provided mnemonic...''
              # split_on newline (''Created wallet marker at: '' @ wallet_dir e)
              @ [''Mnemonic saved for testing purposes'']
         \<and> length (text_lines (stdout (main e f))) = 3 + count_list (wallet_dir e) newline
         \<and> text_lines (stdout (main e f)) ! 1 =
              ''Created wallet marker at: '' @ takeWhile (\<lambda>c. c \<noteq> newline) (wallet_dir e)"
proof -
  let ?m = "''Created wallet marker at: '' @ wallet_dir e"
  from main_success [OF assms] have out: "stdout (main e f) =
           ''Importing wallet with provided mnemonic...'' @ [newline]
           @ ?m @ [newline]
           @ ''Mnemonic saved for testing purposes'' @ [newline]"
    by blast
  have three: "text_lines (stdout (main e f)) =
                [''Importing wallet with provided mnemonic...'', ?m,
                 ''Mnemonic saved for testing purposes'']"
    if "newline \<notin> set (wallet_dir e)"
    unfolding text_lines_def out
    by (rule split_on_lines3) (use that in \<open>auto simp: newline_def\<close>)
  define ys where "ys = split_on newline ?m"
  have all: "text_lines (stdout (main e f)) =
              ''Importing wallet with provided mnemonic...''
              # split_on newline ?m @ [''Mnemonic saved for testing purposes'']"
    unfolding text_lines_def out
    by (rule split_on_lines) (auto simp: newline_def)
  then have all': "text_lines (stdout (main e f)) =
              ''Importing wallet with provided mnemonic...''
              # ys @ [''Mnemonic saved for testing purposes'']"
    by (simp only: ys_def)
  have c0: "count_list ''Created wallet marker at: '' newline = 0"
    by (simp add: newline_def)
  have "count_list ?m newline = count_list (wallet_dir e) newline"
    unfolding count_list_append c0 by simp
  then have ly: "length ys = Suc (count_list (wallet_dir e) newline)"
    by (simp only: ys_def length_split_on)
  have len: "length (text_lines (stdout (main e f))) = 3 + count_list (wallet_dir e) newline"
    unfolding all' by (simp add: ly)
  have "takeWhile (\<lambda>c. c \<noteq> newline) ?m
          = ''Created wallet marker at: '' @ takeWhile (\<lambda>c. c \<noteq> newline) (wallet_dir e)"
    by (rule takeWhile_append2) (auto simp: newline_def)
  then have hy: "hd ys = ''Created wallet marker at: '' @ takeWhile (\<lambda>c. c \<noteq> newline) (wallet_dir e)"
    by (simp only: ys_def hd_split_on)
  have "ys \<noteq> []" by (simp only: ys_def split_on_nonempty not_False_eq_True)
  then have "(''Importing wallet with provided mnemonic...''
              # ys @ [''Mnemonic saved for testing purposes'']) ! 1 = hd ys"
    by (cases ys) simp_all
  then have second: "text_lines (stdout (main e f)) ! 1 =
          ''Created wallet marker at: '' @ takeWhile (\<lambda>c. c \<noteq> newline) (wallet_dir e)"
    by (simp only: all' hy)
  from out three all len second show ?thesis by blast
qed

lemma run_newline_ok: "raised (main env_newline fs_tmp) = None"
  by code_simp

theorem success_prints_three_lines_witness:
  "raised (main env_tmp fs_tmp) = None
   \<and> newline \<notin> set (wallet_dir env_tmp)
   \<and> text_lines (stdout (main env_tmp fs_tmp)) =
        [''Importing wallet with provided mnemonic...'',
         ''Created wallet marker at: /tmp/fakehome/.dig/wallets/test-wallet'',
         ''Mnemonic saved for testing purposes'']
   \<and> raised (main env_newline fs_tmp) = None
   \<and> length (text_lines (stdout (main env_newline fs_tmp))) = 4
   \<and> text_lines (stdout (main env_newline fs_tmp)) ! 1 = ''Created wallet marker at: /tmp/a''"
proof -
  have w: "wallet_dir env_tmp = ''/tmp/fakehome/.dig/wallets/test-wallet''"
    by code_simp
  have n: "newline \<notin> set (wallet_dir env_tmp)"
    unfolding w by (simp add: newline_def)
  from success_prints_three_lines [OF run_tmp_ok] n
  have "text_lines (stdout (main env_tmp fs_tmp)) =
        [''Importing wallet with provided mnemonic...'',
         ''Created wallet marker at: '' @ wallet_dir env_tmp,
         ''Mnemonic saved for testing purposes'']"
    by blast
  then have a: "text_lines (stdout (main env_tmp fs_tmp)) =
        [''Importing wallet with provided mnemonic...'',
         ''Created wallet marker at: /tmp/fakehome/.dig/wallets/test-wallet'',
         ''Mnemonic saved for testing purposes'']"
    by (simp add: w)
  have c: "count_list (wallet_dir env_newline) newline = 1" by code_simp
  have t: "takeWhile (\<lambda>c. c \<noteq> newline) (wallet_dir env_newline) = ''/tmp/a''" by code_simp
  from success_prints_three_lines [OF run_newline_ok]
  have "length (text_lines (stdout (main env_newline fs_tmp))) = 3 + count_list (wallet_dir env_newline) newline"
    and "text_lines (stdout (main env_newline fs_tmp)) ! 1 =
          ''Created wallet marker at: '' @ takeWhile (\<lambda>c. c \<noteq> newline) (wallet_dir env_newline)"
    by blast+
  then have b: "length (text_lines (stdout (main env_newline fs_tmp))) = 4"
    "text_lines (stdout (main env_newline fs_tmp)) ! 1 = ''Created wallet marker at: /tmp/a''"
    by (simp_all add: c t)
  from run_tmp_ok n a run_newline_ok b show ?thesis by blast
qed

theorem two_lines_counterexample:
  "raised (main env_tmp fs_tmp) = None
   \<and> length (text_lines (stdout (main env_tmp fs_tmp))) = 3"
  by code_simp

text \<open>
  C9, amended. A run that fails has printed exactly the first status line, which
  \<open>main\<close> prints before it touches the file system; the two closing lines are not
  printed.
\<close>

theorem failure_prints_first_line:
  assumes "raised (main e f) \<noteq> None"
  shows "stdout (main e f) = ''Importing wallet with provided mnemonic...'' @ [newline]
         \<and> text_lines (stdout (main e f)) = [''Importing wallet with provided mnemonic...'']"
proof -
  from assms obtain err where "raised (main e f) = Some err" by auto
  then have out: "stdout (main e f) = ''Importing wallet with provided mnemonic...'' @ [newline]"
    using main_failure by blast
  have "text_lines (stdout (main e f)) = [''Importing wallet with provided mnemonic...'']"
    unfolding text_lines_def out by (rule split_on_lines1) (simp add: newline_def)
  with out show ?thesis by simp
qed

lemma run_blocked_fails: "raised (main env_tmp fs_blocked) = Some ENOTDIR"
  by code_simp

theorem failure_prints_first_line_witness:
  "raised (main env_tmp fs_blocked) = Some ENOTDIR
   \<and> text_lines (stdout (main env_tmp fs_blocked)) = [''Importing wallet with provided mnemonic...'']"
  using failure_prints_first_line [of env_tmp fs_blocked] run_blocked_fails by blast

theorem silent_failure_counterexample:
  "raised (main env_tmp fs_blocked) = Some ENOTDIR
   \<and> stdout (main env_tmp fs_blocked) = ''Importing wallet with provided mnemonic...'' @ [newline]
   \<and> stdout (main env_tmp fs_blocked) \<noteq> []"
  by code_simp

text \<open>
  C5. When \<open>makedirs\<close> raises, the run ends with that exception and exit status 1, in
  the file system \<open>makedirs\<close> left, and no regular file has been created or changed:
  \<open>open\<close> is never reached.
\<close>

theorem makedirs_failure_aborts:
  assumes "fst (makedirs e f (wallet_dir e) True) = Some err"
  shows "raised (main e f) = Some err
         \<and> exit_status (main e f) = 1
         \<and> files (main e f) = snd (makedirs e f (wallet_dir e) True)
         \<and> (\<forall>q w d. (files (main e f) q = Some (File w d)) = (f q = Some (File w d)))"
proof -
  obtain f1 where m: "makedirs e f (wallet_dir e) True = (Some err, f1)"
    using assms by (cases "makedirs e f (wallet_dir e) True") auto
  then have r: "main e f = \<lparr>raised = Some err, files = f1,
      stdout = print [] ''Importing wallet with provided mnemonic...''\<rparr>"
    by (simp add: main_def Let_def wallet_dir_def [symmetric])
  have "only_adds_dirs (new_write_bit e) f f1" using m by (rule makedirs_adds)
  then have "(f1 q = Some (File w d)) = (f q = Some (File w d))" for q w d
    unfolding only_adds_dirs_def by (metis node.distinct(1) option.distinct(1) option.inject)
  with r m show ?thesis by (simp add: exit_status_def)
qed

lemma makedirs_blocked: "fst (makedirs env_tmp fs_blocked (wallet_dir env_tmp) True) = Some ENOTDIR"
  by code_simp

theorem makedirs_failure_aborts_witness:
  "fst (makedirs env_tmp fs_blocked (wallet_dir env_tmp) True) = Some ENOTDIR
   \<and> raised (main env_tmp fs_blocked) = Some ENOTDIR
   \<and> exit_status (main env_tmp fs_blocked) = 1
   \<and> stat (cwd env_tmp) (files (main env_tmp fs_blocked)) (marker_path env_tmp) = Inl ENOTDIR"
proof -
  have "stat (cwd env_tmp) (files (main env_tmp fs_blocked)) (marker_path env_tmp) = Inl ENOTDIR"
    by code_simp
  with makedirs_failure_aborts [OF makedirs_blocked] makedirs_blocked show ?thesis by blast
qed


lemma run_old_ok: "raised (main env_tmp fs_old) = None"
  by code_simp

















lemma main_success_marker:
  assumes "raised (main e f) = None"
  shows "\<exists>p w. namei (cwd e) (files (main e f)) (marker_path e) = Inr p
           \<and> files (main e f) p = Some (File w MNEMONIC)
           \<and> (privileged e \<or> new_write_bit e \<longrightarrow> may_write e w)"
proof -
  from main_success [OF assms] obtain f1 p w where
    p: "namei (cwd e) f1 (marker_path e) = Inr p"
       "f1 p = None \<and> w = new_write_bit e \<or> (\<exists>d. f1 p = Some (File w d) \<and> may_write e w)"
       "files (main e f) = f1(p \<mapsto> File w MNEMONIC)"
    by blast
  have "namei (cwd e) (f1(p \<mapsto> File w MNEMONIC)) (marker_path e) = Inr p"
    using p(1) by (rule namei_upd_file) (use p(2) in auto)
  moreover have "privileged e \<or> new_write_bit e \<longrightarrow> may_write e w"
    using p(2) by (auto simp: may_write_def)
  ultimately show ?thesis using p(3) by auto
qed

text \<open>
  C4. A second run after a successful one leaves the file system exactly as the first
  run left it. Where the process may still write the marker (always so when the umask
  leaves new files their write bit, or for effective user 0) the second run succeeds and
  its whole outcome equals the first one's; otherwise it raises \<open>EACCES\<close> at \<open>open\<close>,
  having changed nothing.
\<close>

theorem main_idempotent:
  assumes "raised (main e f) = None"
  shows "files (main e (files (main e f))) = files (main e f)
         \<and> (raised (main e (files (main e f))) = None \<longrightarrow>
              main e (files (main e f)) = main e f)
         \<and> (privileged e \<or> new_write_bit e \<longrightarrow> main e (files (main e f)) = main e f)
         \<and> (raised (main e (files (main e f))) \<noteq> None \<longrightarrow>
              raised (main e (files (main e f))) = Some EACCES
              \<and> \<not> privileged e \<and> \<not> new_write_bit e)"
proof -
  let ?g = "files (main e f)"
  let ?out = "''Importing wallet with provided mnemonic...'' @ [newline]
               @ (''Created wallet marker at: '' @ wallet_dir e) @ [newline]
               @ ''Mnemonic saved for testing purposes'' @ [newline]"
  from main_success_marker [OF assms] obtain p w where
    p: "namei (cwd e) ?g (marker_path e) = Inr p" "?g p = Some (File w MNEMONIC)"
       "privileged e \<or> new_write_bit e \<longrightarrow> may_write e w"
    by blast
  have same: "?g(p \<mapsto> File w MNEMONIC) = ?g"
    using p(2) by (rule map_upd_triv)
  have second: "main e ?g =
      (if may_write e w then \<lparr>raised = None, files = ?g, stdout = ?out\<rparr>
       else \<lparr>raised = Some EACCES, files = ?g,
              stdout = ''Importing wallet with provided mnemonic...'' @ [newline]\<rparr>)"
    using main_on_existing [OF p(1,2)] by (simp add: same)
  have first: "main e f = \<lparr>raised = None, files = ?g, stdout = ?out\<rparr>"
  proof -
    have "stdout (main e f) = ?out" using main_success [OF assms] by blast
    with assms show ?thesis by simp
  qed
  have 1: "files (main e ?g) = ?g" by (simp add: second)
  have 2: "main e ?g = main e f" if "raised (main e ?g) = None"
    using that first by (simp add: second split: if_splits)
  have 3: "main e ?g = main e f" if "privileged e \<or> new_write_bit e"
    using that p(3) first by (simp add: second)
  have 4: "raised (main e ?g) = Some EACCES \<and> \<not> privileged e \<and> \<not> new_write_bit e"
    if "raised (main e ?g) \<noteq> None"
    using that p(3) by (auto simp: second split: if_splits)
  from 1 2 3 4 show ?thesis by blast
qed

lemma run_wallet_umask_ok: "raised (main env_umask222 fs_wallet) = None"
  by code_simp

theorem main_idempotent_witness:
  "raised (main env_tmp fs_tmp) = None
   \<and> new_write_bit env_tmp
   \<and> main env_tmp (files (main env_tmp fs_tmp)) = main env_tmp fs_tmp
   \<and> raised (main env_umask222 fs_wallet) = None
   \<and> raised (main env_umask222 (files (main env_umask222 fs_wallet))) = Some EACCES
   \<and> files (main env_umask222 (files (main env_umask222 fs_wallet)))
        = files (main env_umask222 fs_wallet)"
proof -
  have nb: "new_write_bit env_tmp" by code_simp
  have r2: "raised (main env_umask222 (files (main env_umask222 fs_wallet))) = Some EACCES"
    by code_simp
  from main_idempotent [OF run_tmp_ok] nb
  have a: "main env_tmp (files (main env_tmp fs_tmp)) = main env_tmp fs_tmp" by blast
  from main_idempotent [OF run_wallet_umask_ok]
  have b: "files (main env_umask222 (files (main env_umask222 fs_wallet)))
        = files (main env_umask222 fs_wallet)" by blast
  from run_tmp_ok nb a run_wallet_umask_ok r2 b show ?thesis by blast
qed

text \<open>
  C6. Whatever the marker file held before, a run that succeeds leaves exactly the
  phrase in it, in the same file with its mode as it was: \<open>open\<close> truncates, so the old
  content is not kept in front of the phrase.
\<close>

theorem overwrite_replaces_content:
  assumes "home_directory e = Some H"
    and "stat (cwd e) f (H @ ''/.dig/wallets/test-wallet/mnemonic.txt'') = Inr (File w old)"
    and "raised (main e f) = None"
  shows "stat (cwd e) (files (main e f)) (H @ ''/.dig/wallets/test-wallet/mnemonic.txt'')
           = Inr (File w MNEMONIC)
         \<and> read_file (cwd e) (files (main e f)) (H @ ''/.dig/wallets/test-wallet/mnemonic.txt'')
             = Inr MNEMONIC
         \<and> (old \<noteq> [] \<longrightarrow>
              read_file (cwd e) (files (main e f)) (H @ ''/.dig/wallets/test-wallet/mnemonic.txt'')
                \<noteq> Inr (old @ MNEMONIC))"
proof -
  from assms(2) obtain p where
    p: "namei (cwd e) f (marker_path e) = Inr p" "f p = Some (File w old)"
    by (auto simp: stat_home_path [OF assms(1)] stat_Inr [OF marker_path_no_slash])
  from assms(3) have g: "files (main e f) = f(p \<mapsto> File w MNEMONIC)"
    by (simp add: main_on_existing [OF p] split: if_splits)
  have "namei (cwd e) (f(p \<mapsto> File w MNEMONIC)) (marker_path e) = Inr p"
    using p(1) by (rule namei_upd_file) (use p(2) in auto)
  then have "stat (cwd e) (files (main e f)) (marker_path e) = Inr (File w MNEMONIC)"
    by (simp add: g stat_Inr [OF marker_path_no_slash])
  then have s: "stat (cwd e) (files (main e f)) (H @ ''/.dig/wallets/test-wallet/mnemonic.txt'')
           = Inr (File w MNEMONIC)"
    by (simp add: stat_home_path [OF assms(1)])
  then show ?thesis by (simp add: read_file_def)
qed

lemma stat_old:
  "stat (cwd env_tmp) fs_old ''/tmp/fakehome/.dig/wallets/test-wallet/mnemonic.txt''
     = Inr (File True ''abandon abandon about'')"
  by code_simp

lemma stat_old_readonly:
  "stat (cwd env_root) fs_old_readonly ''/tmp/fakehome/.dig/wallets/test-wallet/mnemonic.txt''
     = Inr (File False ''abandon abandon about'')"
  by code_simp

lemma run_root_ok: "raised (main env_root fs_old_readonly) = None"
  by code_simp

theorem overwrite_replaces_content_witness:
  "home_directory env_tmp = Some ''/tmp/fakehome''
   \<and> stat (cwd env_tmp) fs_old ''/tmp/fakehome/.dig/wallets/test-wallet/mnemonic.txt''
        = Inr (File True ''abandon abandon about'')
   \<and> raised (main env_tmp fs_old) = None
   \<and> read_file (cwd env_tmp) (files (main env_tmp fs_old))
        ''/tmp/fakehome/.dig/wallets/test-wallet/mnemonic.txt'' = Inr MNEMONIC
   \<and> home_directory env_root = Some ''/tmp/fakehome''
   \<and> stat (cwd env_root) fs_old_readonly ''/tmp/fakehome/.dig/wallets/test-wallet/mnemonic.txt''
        = Inr (File False ''abandon abandon about'')
   \<and> raised (main env_root fs_old_readonly) = None
   \<and> stat (cwd env_root) (files (main env_root fs_old_readonly))
        ''/tmp/fakehome/.dig/wallets/test-wallet/mnemonic.txt'' = Inr (File False MNEMONIC)"
proof -
  have h: "home_directory env_tmp = Some ''/tmp/fakehome''"
    by (simp add: home_directory_def env_tmp_def)
  have hr: "home_directory env_root = Some ''/tmp/fakehome''"
    by (simp add: home_directory_def env_root_def)
  have s: "stat (cwd env_tmp) fs_old (''/tmp/fakehome'' @ ''/.dig/wallets/test-wallet/mnemonic.txt'')
             = Inr (File True ''abandon abandon about'')"
    using stat_old by simp
  have sr: "stat (cwd env_root) fs_old_readonly
              (''/tmp/fakehome'' @ ''/.dig/wallets/test-wallet/mnemonic.txt'')
             = Inr (File False ''abandon abandon about'')"
    using stat_old_readonly by simp
  from overwrite_replaces_content [OF h s run_old_ok]
  have "read_file (cwd env_tmp) (files (main env_tmp fs_old))
            (''/tmp/fakehome'' @ ''/.dig/wallets/test-wallet/mnemonic.txt'') = Inr MNEMONIC"
    by blast
  then have a: "read_file (cwd env_tmp) (files (main env_tmp fs_old))
        ''/tmp/fakehome/.dig/wallets/test-wallet/mnemonic.txt'' = Inr MNEMONIC"
    by simp
  from overwrite_replaces_content [OF hr sr run_root_ok]
  have "stat (cwd env_root) (files (main env_root fs_old_readonly))
        (''/tmp/fakehome'' @ ''/.dig/wallets/test-wallet/mnemonic.txt'') = Inr (File False MNEMONIC)"
    by blast
  then have b: "stat (cwd env_root) (files (main env_root fs_old_readonly))
        ''/tmp/fakehome/.dig/wallets/test-wallet/mnemonic.txt'' = Inr (File False MNEMONIC)"
    by simp
  from h stat_old run_old_ok a hr stat_old_readonly run_root_ok b show ?thesis by blast
qed

end
